theory Spec2Isabelle
  imports Main "HOL-Library.Word"
begin

unbundle bit_operations_syntax

section \<open>PSS encoding and verification (pssr.cpp)\<close>

text \<open>
  A shallow embedding of \<^verbatim>\<open>src/lib/pk_pad/emsa_pssr/pssr.cpp\<close>: the two file-local
  functions \<^verbatim>\<open>pss_encode\<close> and \<^verbatim>\<open>pss_verify\<close>, and the member functions of the
  classes \<^verbatim>\<open>PSSR\<close> and \<^verbatim>\<open>PSSR_Raw\<close> that call them.

  Bytes are 8-bit words and a \<^verbatim>\<open>secure_vector<uint8_t>\<close> is a list of bytes.
  \<^verbatim>\<open>size_t\<close> is taken to be 64 bits wide. The bit counts \<^verbatim>\<open>output_bits\<close> and
  \<^verbatim>\<open>key_bits\<close> are chosen by the caller and range over all of \<^verbatim>\<open>size_t\<close>: they
  are 64-bit words, and the source's \<^verbatim>\<open>(bits + 7) / 8\<close> wraps around as it does in
  C++. Lengths of vectors that exist in memory (\<^verbatim>\<open>size()\<close>,
  \<^verbatim>\<open>output_length()\<close>) are natural numbers: sums of them and of their multiples by 8
  stay far below \<open>2 ^ 64\<close> and are computed exactly, and wherever a difference of lengths
  could fall below zero the model says what the source does there.

  Memory is not modelled: a vector of any length can be created, whereas the program
  throws \<^verbatim>\<open>std::bad_alloc\<close> when the allocator cannot supply it. The definitions
  describe the runs in which every allocation succeeds.
\<close>

type_synonym u8 = "8 word"
type_synonym size_t = "64 word"

subsection \<open>The hash function object\<close>

text \<open>
  \<^verbatim>\<open>HashFunction\<close> is an abstract class declared outside this file. An object of it
  is a hash algorithm (its output length and the digest it assigns to a message) together
  with the bytes fed to it by \<^verbatim>\<open>update\<close> since the last \<^verbatim>\<open>final\<close>.
  \<^verbatim>\<open>final\<close> returns the digest of those bytes and resets the object.
\<close>

record HashFunction =
  output_length :: nat
  digest :: "u8 list \<Rightarrow> u8 list"
  buffered :: "u8 list"

definition hash_update :: "HashFunction \<Rightarrow> u8 list \<Rightarrow> HashFunction" where
  "hash_update hash input = hash\<lparr>buffered := buffered hash @ input\<rparr>"

text \<open>\<^verbatim>\<open>update_be(uint32_t)\<close>: the four bytes of the counter, most significant first.\<close>

definition be32 :: "32 word \<Rightarrow> u8 list" where
  "be32 c = [ucast (drop_bit 24 c), ucast (drop_bit 16 c), ucast (drop_bit 8 c), ucast c]"

definition hash_update_be :: "HashFunction \<Rightarrow> 32 word \<Rightarrow> HashFunction" where
  "hash_update_be hash c = hash_update hash (be32 c)"

definition hash_final :: "HashFunction \<Rightarrow> u8 list \<times> HashFunction" where
  "hash_final hash = (digest hash (buffered hash), hash\<lparr>buffered := []\<rparr>)"

text \<open>
  The contract of the hash interface: \<^verbatim>\<open>final\<close> yields exactly
  \<^verbatim>\<open>output_length()\<close> bytes, and that length is positive.
\<close>

definition hash_contract :: "HashFunction \<Rightarrow> bool" where
  "hash_contract hash \<longleftrightarrow>
     0 < output_length hash \<and> (\<forall>m. length (digest hash m) = output_length hash)"

subsection \<open>Helpers declared in other files\<close>

text \<open>
  Modelled from the spec: \<^verbatim>\<open>buffer_insert\<close> (secmem.h is not among the sources).
  It copies \<open>input\<close> into \<open>buf\<close> starting at \<open>buf_offset\<close>, never writing past the end of
  \<open>buf\<close>; the length of \<open>buf\<close> does not change. Every call in this file passes an
  offset that is at most the length of \<open>buf\<close>.
\<close>

definition buffer_insert :: "u8 list \<Rightarrow> nat \<Rightarrow> u8 list \<Rightarrow> u8 list" where
  "buffer_insert buf buf_offset input =
     (let to_copy = min (length input) (length buf - buf_offset)
      in take buf_offset buf @ take to_copy input @ drop (buf_offset + to_copy) buf)"

text \<open>
  Modelled from the spec: \<^verbatim>\<open>xor_buf(out, in, length)\<close> (mem_ops.h is not among the
  sources): \<^verbatim>\<open>out[i] ^= in[i]\<close> for the first \<open>len\<close> positions.
\<close>

definition xor_buf :: "u8 list \<Rightarrow> u8 list \<Rightarrow> nat \<Rightarrow> u8 list" where
  "xor_buf out inp len = map2 (XOR) (take len out) (take len inp) @ drop len out"

text \<open>
  Modelled from the spec: \<^verbatim>\<open>mgf1_mask(hash, in, in_len, out, out_len)\<close> (mgf1.h is not
  among the sources). The standard MGF1 construction: while bytes of \<open>out\<close> remain, hash the
  seed followed by a 4-byte big-endian counter, XOR the digest over the next bytes of
  \<open>out\<close>, and increment the counter. \<open>finished\<close> holds the bytes of \<open>out\<close> already
  masked (the source advances the pointer \<open>out\<close> past them). With a hash of output length
  zero the loop makes no progress and never returns: the value is \<open>None\<close>.
\<close>

partial_function (option) mgf1_loop ::
  "HashFunction \<Rightarrow> u8 list \<Rightarrow> 32 word \<Rightarrow> u8 list \<Rightarrow> u8 list \<Rightarrow> (u8 list \<times> HashFunction) option"
where
  "mgf1_loop hash inp counter finished out =
     (if length out = 0 then Some (finished, hash)
      else
        (case hash_final (hash_update_be (hash_update hash inp) counter) of
           (buffer, hash') \<Rightarrow>
             let xored = min (length buffer) (length out);
                 out' = xor_buf out buffer xored
             in mgf1_loop hash' inp (counter + 1) (finished @ take xored out') (drop xored out')))"

declare mgf1_loop.simps [code]

definition mgf1_mask :: "HashFunction \<Rightarrow> u8 list \<Rightarrow> u8 list \<Rightarrow> (u8 list \<times> HashFunction) option" where
  "mgf1_mask hash inp out = mgf1_loop hash inp 0 [] out"

text \<open>
  Modelled from the spec: \<^verbatim>\<open>high_bit\<close> (bit_ops.h is not among the sources): the
  1-based index of the highest set bit, 0 for 0, so that \<open>8 - high_bit b\<close> is the number
  of leading zero bits of the byte \<open>b\<close>.
\<close>

fun high_bit_nat :: "nat \<Rightarrow> nat" where
  "high_bit_nat n = (if n = 0 then 0 else Suc (high_bit_nat (n div 2)))"

declare high_bit_nat.simps [simp del]

definition high_bit :: "u8 \<Rightarrow> nat" where
  "high_bit b = high_bit_nat (unat b)"

text \<open>
  Modelled from the spec: \<^verbatim>\<open>constant_time_compare(x, y, len)\<close> (mem_ops.h is not among
  the sources): a byte-wise comparison of the first \<open>len\<close> bytes that accumulates the
  differences over the full length.
\<close>

definition constant_time_compare :: "u8 list \<Rightarrow> u8 list \<Rightarrow> nat \<Rightarrow> bool" where
  "constant_time_compare x y len =
     (fold (\<lambda>(a, b) difference. difference OR (a XOR b)) (zip (take len x) (take len y)) 0 = 0)"

subsection \<open>pss_encode\<close>

datatype error =
  Encoding_Error
  | Out_Of_Range

text \<open>
  \<open>Encoding_Error\<close> is the exception the source throws. \<open>Out_Of_Range\<close> stands for the
  write \<^verbatim>\<open>EM[output_length - HASH_SIZE - SALT_SIZE - 2] = 0x01\<close> when
  \<open>output_length < HASH_SIZE + SALT_SIZE + 2\<close>: the unsigned index wraps around and lies
  outside the vector. The outer \<open>option\<close> is \<open>None\<close> when the mask generation does not
  return.
\<close>

definition pss_encode ::
  "HashFunction \<Rightarrow> u8 list \<Rightarrow> u8 list \<Rightarrow> size_t \<Rightarrow> (error + u8 list \<times> HashFunction) option"
where
  "pss_encode hash msg salt output_bits =
     (let HASH_SIZE = output_length hash;
          SALT_SIZE = length salt
      in
      if length msg \<noteq> HASH_SIZE then Some (Inl Encoding_Error)
      else if unat output_bits < 8 * HASH_SIZE + 8 * SALT_SIZE + 9 then Some (Inl Encoding_Error)
      else
        let output_length = unat ((output_bits + 7) div 8);
            hash1 = hash_update hash (replicate 8 0);
            hash2 = hash_update hash1 msg;
            hash3 = hash_update hash2 salt;
            (H, hash4) = hash_final hash3;
            EM = replicate output_length (0 :: u8)
        in
        if output_length < HASH_SIZE + SALT_SIZE + 2 then Some (Inl Out_Of_Range)
        else
          let EM1 = EM[output_length - HASH_SIZE - SALT_SIZE - 2 := 0x01];
              EM2 = buffer_insert EM1 (output_length - 1 - HASH_SIZE - SALT_SIZE) salt
          in
          (case mgf1_mask hash4 (take HASH_SIZE H) (take (output_length - HASH_SIZE - 1) EM2) of
             None \<Rightarrow> None
           | Some (masked, hash5) \<Rightarrow>
               let EM3 = masked @ drop (output_length - HASH_SIZE - 1) EM2;
                   EM4 = EM3[0 := EM3 ! 0 AND
                           drop_bit (unat (8 * ((output_bits + 7) div 8) - output_bits)) 0xFF];
                   EM5 = buffer_insert EM4 (output_length - 1 - HASH_SIZE) H;
                   EM6 = EM5[output_length - 1 := 0xBC]
               in Some (Inr (EM6, hash5))))"

subsection \<open>pss_verify\<close>

text \<open>
  Lines 74 to 80: a representation shorter than \<open>KEY_BYTES\<close> is copied to the end of a
  zeroed vector of \<open>KEY_BYTES\<close> bytes.
\<close>

definition left_pad :: "nat \<Rightarrow> u8 list \<Rightarrow> u8 list" where
  "left_pad KEY_BYTES pss_repr =
     (if length pss_repr < KEY_BYTES
      then buffer_insert (replicate KEY_BYTES 0) (KEY_BYTES - length pss_repr) pss_repr
      else pss_repr)"

text \<open>
  Lines 95 to 104, the scan for the separator, over the bytes of \<open>DB\<close> from index \<open>j\<close> on.
  \<open>None\<close> is the \<^verbatim>\<open>return false\<close> inside the loop; \<open>Some salt_offset\<close> is the value
  of \<^verbatim>\<open>salt_offset\<close> when the loop is left, which is still 0 if no byte 0x01 was met.
\<close>

fun separator_scan :: "u8 list \<Rightarrow> nat \<Rightarrow> nat option" where
  "separator_scan [] j = Some 0"
| "separator_scan (b # bs) j =
     (if b = 0x01 then Some (j + 1)
      else if b \<noteq> 0 then None
      else separator_scan bs (j + 1))"

text \<open>
  Lines 86 to 93: \<open>DB\<close> is the first \<open>DB_size\<close> bytes of \<open>coded\<close>, unmasked in place with
  the seed \<open>H\<close> (the \<open>HASH_SIZE\<close> bytes that follow it, which the mask does not touch),
  then its top bits cleared.
\<close>

definition unmask_DB ::
  "HashFunction \<Rightarrow> u8 list \<Rightarrow> size_t \<Rightarrow> (u8 list \<times> HashFunction) option"
where
  "unmask_DB hash coded key_bits =
     (let HASH_SIZE = output_length hash;
          TOP_BITS = unat (8 * ((key_bits + 7) div 8) - key_bits);
          DB_size = length coded - HASH_SIZE - 1;
          H = take HASH_SIZE (drop DB_size coded)
      in
      case mgf1_mask hash H (take DB_size coded) of
        None \<Rightarrow> None
      | Some (DB, hash1) \<Rightarrow> Some (DB[0 := DB ! 0 AND drop_bit TOP_BITS 0xFF], hash1))"

text \<open>
  The pointer \<^verbatim>\<open>out_salt_size\<close> is an optional cell: \<open>None\<close> for a null pointer,
  \<open>Some v\<close> for a cell holding \<open>v\<close>. The function returns its boolean, the cell after
  the call, and the hash object after the call; \<open>None\<close> when the mask generation does
  not return.
\<close>

definition pss_verify ::
  "HashFunction \<Rightarrow> u8 list \<Rightarrow> u8 list \<Rightarrow> size_t \<Rightarrow> nat option
     \<Rightarrow> (bool \<times> nat option \<times> HashFunction) option"
where
  "pss_verify hash pss_repr message_hash key_bits out_salt_size =
     (let HASH_SIZE = output_length hash;
          KEY_BYTES = unat ((key_bits + 7) div 8)
      in
      if unat key_bits < 8 * HASH_SIZE + 9 then Some (False, out_salt_size, hash)
      else if length message_hash \<noteq> HASH_SIZE then Some (False, out_salt_size, hash)
      else if length pss_repr > KEY_BYTES \<or> length pss_repr \<le> 1
        then Some (False, out_salt_size, hash)
      else if pss_repr ! (length pss_repr - 1) \<noteq> 0xBC then Some (False, out_salt_size, hash)
      else
        let coded = left_pad KEY_BYTES pss_repr;
            TOP_BITS = unat (8 * ((key_bits + 7) div 8) - key_bits)
        in
        if TOP_BITS > 8 - high_bit (coded ! 0) then Some (False, out_salt_size, hash)
        else
          let DB_size = length coded - HASH_SIZE - 1;
              H = take HASH_SIZE (drop DB_size coded)
          in
          (case unmask_DB hash coded key_bits of
             None \<Rightarrow> None
           | Some (DB, hash1) \<Rightarrow>
               (case separator_scan DB 0 of
                  None \<Rightarrow> Some (False, out_salt_size, hash1)
                | Some salt_offset \<Rightarrow>
                    if salt_offset = 0 then Some (False, out_salt_size, hash1)
                    else
                      let salt_size = DB_size - salt_offset;
                          hash2 = hash_update hash1 (replicate 8 0);
                          hash3 = hash_update hash2 message_hash;
                          hash4 = hash_update hash3 (take salt_size (drop salt_offset DB));
                          (H2, hash5) = hash_final hash4;
                          ok = constant_time_compare H H2 HASH_SIZE
                      in Some (ok,
                               (if out_salt_size \<noteq> None \<and> ok then Some salt_size
                                else out_salt_size),
                               hash5))))"

subsection \<open>The classes PSSR and PSSR_Raw\<close>

record PSSR =
  m_hash :: HashFunction
  m_salt_size :: nat
  m_required_salt_len :: bool

text \<open>The two constructors of \<^verbatim>\<open>PSSR\<close>.\<close>

definition PSSR_new :: "HashFunction \<Rightarrow> PSSR" where
  "PSSR_new hash =
     \<lparr>m_hash = hash, m_salt_size = output_length hash, m_required_salt_len = False\<rparr>"

definition PSSR_new_salt :: "HashFunction \<Rightarrow> nat \<Rightarrow> PSSR" where
  "PSSR_new_salt hash salt_size =
     \<lparr>m_hash = hash, m_salt_size = salt_size, m_required_salt_len = True\<rparr>"

definition PSSR_update :: "PSSR \<Rightarrow> u8 list \<Rightarrow> PSSR" where
  "PSSR_update this input = this\<lparr>m_hash := hash_update (m_hash this) input\<rparr>"

definition PSSR_raw_data :: "PSSR \<Rightarrow> u8 list \<times> PSSR" where
  "PSSR_raw_data this =
     (case hash_final (m_hash this) of (d, hash') \<Rightarrow> (d, this\<lparr>m_hash := hash'\<rparr>))"

text \<open>
  \<^verbatim>\<open>PSSR::verify\<close>: the local \<^verbatim>\<open>salt_size\<close> starts at 0 and is passed by address.
  \<^verbatim>\<open>PSSR_Raw::verify\<close> has the same body, so the definition is stated for every
  record with the three members.
\<close>

definition PSSR_verify ::
  "'a PSSR_scheme \<Rightarrow> u8 list \<Rightarrow> u8 list \<Rightarrow> size_t \<Rightarrow> (bool \<times> 'a PSSR_scheme) option"
where
  "PSSR_verify this coded raw key_bits =
     (case pss_verify (m_hash this) coded raw key_bits (Some 0) of
        None \<Rightarrow> None
      | Some (ok, cell, hash') \<Rightarrow>
          let salt_size = (case cell of Some v \<Rightarrow> v | None \<Rightarrow> 0);
              this' = this\<lparr>m_hash := hash'\<rparr>
          in
          if m_required_salt_len this \<and> salt_size \<noteq> m_salt_size this then Some (False, this')
          else Some (ok, this'))"

text \<open>
  \<^verbatim>\<open>PSSR_Raw\<close> has the same three members as \<^verbatim>\<open>PSSR\<close> and the buffer
  \<^verbatim>\<open>m_msg\<close> in addition.
\<close>

record PSSR_Raw = PSSR +
  m_msg :: "u8 list"

definition PSSR_Raw_update :: "PSSR_Raw \<Rightarrow> u8 list \<Rightarrow> PSSR_Raw" where
  "PSSR_Raw_update this input = this\<lparr>m_msg := m_msg this @ input\<rparr>"

text \<open>
  \<^verbatim>\<open>PSSR_Raw::raw_data\<close>: the buffer is swapped into the empty local \<^verbatim>\<open>ret\<close>
  before the length is checked, so the object after the call is the same whether the call
  returns or throws.
\<close>

definition PSSR_Raw_raw_data :: "PSSR_Raw \<Rightarrow> (error + u8 list) \<times> PSSR_Raw" where
  "PSSR_Raw_raw_data this =
     (let ret = m_msg this;
          this' = this\<lparr>m_msg := []\<rparr>
      in
      if length ret \<noteq> output_length (m_hash this) then (Inl Encoding_Error, this')
      else (Inr ret, this'))"

subsection \<open>The order of the comparison and the salt length check\<close>

text \<open>
  The results of \<^verbatim>\<open>verify\<close> do not show in which order its two decisions are taken.
  To state the order, \<^verbatim>\<open>pss_verify\<close> and \<^verbatim>\<open>PSSR::verify\<close> are given once more,
  with the list of the decisions they have evaluated, in the order of evaluation:
  \<open>Constant_Time_Compare ok\<close> when line 115 has run with result \<open>ok\<close>, and
  \<open>Salt_Length_Check b\<close> when the condition of line 173 (line 238 in \<^verbatim>\<open>PSSR_Raw\<close>)
  has been evaluated to \<open>b\<close>. Apart from the list the definitions are the ones above.
\<close>

datatype event =
  Constant_Time_Compare bool
  | Salt_Length_Check bool

definition pss_verify_log ::
  "HashFunction \<Rightarrow> u8 list \<Rightarrow> u8 list \<Rightarrow> size_t \<Rightarrow> nat option
     \<Rightarrow> ((bool \<times> nat option \<times> HashFunction) \<times> event list) option"
where
  "pss_verify_log hash pss_repr message_hash key_bits out_salt_size =
     (let HASH_SIZE = output_length hash;
          KEY_BYTES = unat ((key_bits + 7) div 8)
      in
      if unat key_bits < 8 * HASH_SIZE + 9 then Some ((False, out_salt_size, hash), [])
      else if length message_hash \<noteq> HASH_SIZE then Some ((False, out_salt_size, hash), [])
      else if length pss_repr > KEY_BYTES \<or> length pss_repr \<le> 1
        then Some ((False, out_salt_size, hash), [])
      else if pss_repr ! (length pss_repr - 1) \<noteq> 0xBC
        then Some ((False, out_salt_size, hash), [])
      else
        let coded = left_pad KEY_BYTES pss_repr;
            TOP_BITS = unat (8 * ((key_bits + 7) div 8) - key_bits)
        in
        if TOP_BITS > 8 - high_bit (coded ! 0) then Some ((False, out_salt_size, hash), [])
        else
          let DB_size = length coded - HASH_SIZE - 1;
              H = take HASH_SIZE (drop DB_size coded)
          in
          (case unmask_DB hash coded key_bits of
             None \<Rightarrow> None
           | Some (DB, hash1) \<Rightarrow>
               (case separator_scan DB 0 of
                  None \<Rightarrow> Some ((False, out_salt_size, hash1), [])
                | Some salt_offset \<Rightarrow>
                    if salt_offset = 0 then Some ((False, out_salt_size, hash1), [])
                    else
                      let salt_size = DB_size - salt_offset;
                          hash2 = hash_update hash1 (replicate 8 0);
                          hash3 = hash_update hash2 message_hash;
                          hash4 = hash_update hash3 (take salt_size (drop salt_offset DB));
                          (H2, hash5) = hash_final hash4;
                          ok = constant_time_compare H H2 HASH_SIZE
                      in Some ((ok,
                                (if out_salt_size \<noteq> None \<and> ok then Some salt_size
                                 else out_salt_size),
                                hash5),
                               [Constant_Time_Compare ok]))))"

definition PSSR_verify_log ::
  "'a PSSR_scheme \<Rightarrow> u8 list \<Rightarrow> u8 list \<Rightarrow> size_t
     \<Rightarrow> ((bool \<times> 'a PSSR_scheme) \<times> event list) option"
where
  "PSSR_verify_log this coded raw key_bits =
     (case pss_verify_log (m_hash this) coded raw key_bits (Some 0) of
        None \<Rightarrow> None
      | Some ((ok, cell, hash'), log) \<Rightarrow>
          let salt_size = (case cell of Some v \<Rightarrow> v | None \<Rightarrow> 0);
              this' = this\<lparr>m_hash := hash'\<rparr>;
              wrong_length = (m_required_salt_len this \<and> salt_size \<noteq> m_salt_size this);
              log' = log @ [Salt_Length_Check wrong_length]
          in
          if wrong_length then Some ((False, this'), log')
          else Some ((ok, this'), log'))"

subsection \<open>Notions used in the statements\<close>

text \<open>
  Signing followed by verification: the block returned by \<^verbatim>\<open>pss_encode\<close> is handed to
  \<^verbatim>\<open>pss_verify\<close> together with the same digest, on the hash object as the encoder
  left it. The result is the encoder's error if it failed, otherwise the verifier's boolean.
\<close>

definition encode_then_verify ::
  "HashFunction \<Rightarrow> u8 list \<Rightarrow> u8 list \<Rightarrow> size_t \<Rightarrow> size_t \<Rightarrow> (error + bool) option"
where
  "encode_then_verify hash msg salt output_bits key_bits =
     (case pss_encode hash msg salt output_bits of
        None \<Rightarrow> None
      | Some (Inl e) \<Rightarrow> Some (Inl e)
      | Some (Inr (EM, hash')) \<Rightarrow>
          (case pss_verify hash' EM msg key_bits (Some 0) of
             None \<Rightarrow> None
           | Some (ok, cell, hash'') \<Rightarrow> Some (Inr ok)))"

text \<open>
  The checks of \<^verbatim>\<open>pss_verify\<close> that come before any hashing (lines 62 to 84): none of
  its early \<^verbatim>\<open>return false\<close> statements is taken.
\<close>

definition structural_checks :: "HashFunction \<Rightarrow> u8 list \<Rightarrow> u8 list \<Rightarrow> size_t \<Rightarrow> bool" where
  "structural_checks hash pss_repr message_hash key_bits \<longleftrightarrow>
     (let HASH_SIZE = output_length hash;
          KEY_BYTES = unat ((key_bits + 7) div 8);
          TOP_BITS = unat (8 * ((key_bits + 7) div 8) - key_bits)
      in \<not> unat key_bits < 8 * HASH_SIZE + 9
         \<and> length message_hash = HASH_SIZE
         \<and> \<not> (length pss_repr > KEY_BYTES \<or> length pss_repr \<le> 1)
         \<and> pss_repr ! (length pss_repr - 1) = 0xBC
         \<and> \<not> TOP_BITS > 8 - high_bit (left_pad KEY_BYTES pss_repr ! 0))"

text \<open>
  A small hash function for concrete instances: one byte of output, the sum of the
  message bytes plus 7.
\<close>

definition sum_hash :: HashFunction where
  "sum_hash = \<lparr>output_length = 1, digest = (\<lambda>m. [fold (+) m 7]), buffered = []\<rparr>"

section \<open>Properties\<close>

subsection \<open>The state of the hash object between calls\<close>

text \<open>
  \<^verbatim>\<open>PSSR::raw_data\<close> ends with \<^verbatim>\<open>final\<close>, and \<^verbatim>\<open>PSSR_Raw::update\<close> never
  touches the hash object: when the digest is handed to \<^verbatim>\<open>encoding_of\<close> or
  \<^verbatim>\<open>verify\<close>, the hash object has nothing buffered.
\<close>

lemma PSSR_raw_data_resets_hash: "buffered (m_hash (snd (PSSR_raw_data this))) = []"
  by (simp add: PSSR_raw_data_def hash_final_def)

lemma PSSR_Raw_update_keeps_hash: "m_hash (PSSR_Raw_update this input) = m_hash this"
  by (simp add: PSSR_Raw_update_def)

subsection \<open>Arithmetic on the bit counts\<close>

text \<open>
  When \<open>bits + 7\<close> does not wrap, the byte count is the mathematical ceiling of
  \<open>bits / 8\<close> and the number of unused top bits is below 8; when it wraps, the byte
  count is 0.
\<close>

lemma unat_add7: "unat k + 7 < 2 ^ 64 \<Longrightarrow> unat (k + 7 :: size_t) = unat k + 7"
  using unat_add_lem [of k 7] by simp

lemma key_bytes_no_wrap:
  "unat k + 7 < 2 ^ 64 \<Longrightarrow> unat ((k + 7 :: size_t) div 8) = (unat k + 7) div 8"
  by (simp add: unat_div unat_add7)

lemma key_bytes_wrap:
  assumes "\<not> unat k + 7 < 2 ^ 64"
  shows "unat ((k + 7 :: size_t) div 8) = 0"
proof -
  define n where "n = unat k"
  have n: "n < 2 ^ 64" "2 ^ 64 \<le> n + 7"
    using unsigned_less [of k, where ?'a = nat] assms by (simp_all add: n_def)
  have "unat (k + 7) = (n + 7) mod 2 ^ 64"
    by (simp add: unat_word_ariths n_def)
  also have "\<dots> = n + 7 - 2 ^ 64"
    using n by (subst le_mod_geq) simp_all
  also have "\<dots> < 7" using n by linarith
  finally show ?thesis by (simp add: unat_div)
qed

lemma key_bytes_le: "unat ((k + 7 :: size_t) div 8) \<le> (unat k + 7) div 8"
  by (cases "unat k + 7 < 2 ^ 64") (simp_all add: key_bytes_no_wrap key_bytes_wrap)

lemma top_bits_no_wrap:
  assumes "unat k + 7 < 2 ^ 64"
  shows "unat (8 * ((k + 7 :: size_t) div 8) - k) = 8 * ((unat k + 7) div 8) - unat k"
proof -
  have a: "unat ((k + 7) div 8) = (unat k + 7) div 8" by (rule key_bytes_no_wrap [OF assms])
  have "8 * ((unat k + 7) div 8) < 2 ^ 64" using assms by simp
  then have b: "unat (8 * ((k + 7) div 8)) = 8 * ((unat k + 7) div 8)"
    using unat_mult_lem [of 8 "(k + 7) div 8"] a by simp
  have "unat k \<le> 8 * ((unat k + 7) div 8)" by simp
  then have "k \<le> 8 * ((k + 7) div 8)" using b by (simp add: word_le_nat_alt)
  then show ?thesis using b by (simp add: unat_sub)
qed

lemma top_bits_lt8:
  "unat k + 7 < 2 ^ 64 \<Longrightarrow> unat (8 * ((k + 7 :: size_t) div 8) - k) < 8"
  by (simp add: top_bits_no_wrap)

subsection \<open>The mask generator\<close>

text \<open>
  On a hash object with no buffered input, masking \<open>n\<close> bytes XORs them with a mask
  that depends only on the seed, the counter and \<open>n\<close>, and leaves the object as it was.
\<close>

lemma hash_final_fresh:
  "buffered hash = [] \<Longrightarrow>
     hash_final (hash_update_be (hash_update hash inp) c) = (digest hash (inp @ be32 c), hash)"
  by (simp add: hash_final_def hash_update_be_def hash_update_def)

lemma map2_xor_append:
  "length a = length b \<Longrightarrow> map2 (XOR) (a @ c) (b @ d) = map2 (XOR) a b @ map2 (XOR) c (d :: u8 list)"
  by simp

lemma mgf1_loop_mask:
  assumes "hash_contract hash" and "buffered hash = []"
  shows "\<exists>mask. length mask = n \<and>
           (\<forall>out finished. length out = n \<longrightarrow>
              mgf1_loop hash inp c finished out = Some (finished @ map2 (XOR) out mask, hash))"
  using assms
proof (induction n arbitrary: c rule: less_induct)
  case (less n)
  show ?case
  proof (cases "n = 0")
    case True
    have "\<forall>out finished. length out = n \<longrightarrow> mgf1_loop hash inp c finished out = Some (finished @ map2 (XOR) out [], hash)"
      using True by (subst mgf1_loop.simps) simp
    then show ?thesis using True by (intro exI [of _ "[]"]) simp
  next
    case False
    define buffer where "buffer = digest hash (inp @ be32 c)"
    define xored where "xored = min (length buffer) n"
    have len: "length buffer = output_length hash" "0 < output_length hash"
      using less.prems by (simp_all add: buffer_def hash_contract_def)
    have x: "0 < xored" "xored \<le> n" "xored \<le> length buffer"
      using False len by (simp_all add: xored_def)
    then have "n - xored < n" using False by simp
    from less.IH [OF this less.prems, of "c + 1"]
    obtain m' where m': "length m' = n - xored"
      "\<And>out finished. length out = n - xored \<Longrightarrow>
          mgf1_loop hash inp (c + 1) finished out = Some (finished @ map2 (XOR) out m', hash)"
      by blast
    have "mgf1_loop hash inp c finished out = Some (finished @ map2 (XOR) out (take xored buffer @ m'), hash)"
      if o: "length out = n" for out finished
    proof -
      have t: "take xored (xor_buf out buffer xored) = map2 (XOR) (take xored out) (take xored buffer)"
        using x o by (simp add: xor_buf_def)
      have d: "drop xored (xor_buf out buffer xored) = drop xored out"
        using x o by (simp add: xor_buf_def)
      have "mgf1_loop hash inp c finished out =
              mgf1_loop hash inp (c + 1) (finished @ map2 (XOR) (take xored out) (take xored buffer)) (drop xored out)"
        using False o less.prems(2)
        by (subst mgf1_loop.simps) (simp add: hash_final_fresh buffer_def [symmetric] xored_def [symmetric] t d Let_def)
      also have "\<dots> = Some ((finished @ map2 (XOR) (take xored out) (take xored buffer)) @ map2 (XOR) (drop xored out) m', hash)"
        using o by (intro m'(2)) simp
      finally have r: "mgf1_loop hash inp c finished out =
          Some ((finished @ map2 (XOR) (take xored out) (take xored buffer)) @
                  map2 (XOR) (drop xored out) m', hash)" .
      have "map2 (XOR) (take xored out) (take xored buffer) @ map2 (XOR) (drop xored out) m'
                   = map2 (XOR) (take xored out @ drop xored out) (take xored buffer @ m')"
        using x o by (subst map2_xor_append) simp_all
      then show ?thesis using r by simp
    qed
    moreover have "length (take xored buffer @ m') = n" using x m'(1) by simp
    ultimately show ?thesis by blast
  qed
qed

lemma mgf1_mask_fresh:
  assumes "hash_contract hash" and "buffered hash = []"
  shows "\<exists>mask. length mask = n \<and>
           (\<forall>out. length out = n \<longrightarrow> mgf1_mask hash inp out = Some (map2 (XOR) out mask, hash))"
  using mgf1_loop_mask [OF assms, of n inp 0] by (auto simp: mgf1_mask_def)

lemma mgf1_mask_returns:
  assumes "hash_contract hash" and "out \<noteq> []"
  shows "\<exists>r. mgf1_mask hash inp out = Some (r, hash\<lparr>buffered := []\<rparr>) \<and> length r = length out"
proof -
  define buffer where "buffer = digest hash (buffered hash @ inp @ be32 0)"
  define xored where "xored = min (length buffer) (length out)"
  define hash' where "hash' = hash\<lparr>buffered := []\<rparr>"
  define out' where "out' = xor_buf out buffer xored"
  have h': "hash_contract hash'" "buffered hash' = []"
    using assms(1) by (simp_all add: hash'_def hash_contract_def)
  have lo: "length out' = length out" by (simp add: out'_def xor_buf_def xored_def)
  have step: "mgf1_mask hash inp out = mgf1_loop hash' inp 1 (take xored out') (drop xored out')"
    unfolding mgf1_mask_def using assms(2)
    by (subst mgf1_loop.simps)
      (simp add: hash_final_def hash_update_be_def hash_update_def Let_def
        buffer_def xored_def hash'_def out'_def)
  from mgf1_loop_mask [OF h', of "length (drop xored out')" inp 1]
  obtain mask where "length mask = length (drop xored out')"
    "mgf1_loop hash' inp 1 (take xored out') (drop xored out')
       = Some (take xored out' @ map2 (XOR) (drop xored out') mask, hash')"
    by blast
  then show ?thesis using step lo by (simp add: min_def hash'_def)
qed

subsection \<open>The top bits of the first byte\<close>

lemma high_bit_nat_le: "high_bit_nat n \<le> k \<longleftrightarrow> n < 2 ^ k"
proof (induction n arbitrary: k rule: high_bit_nat.induct)
  case (1 n)
  show ?case
  proof (cases "n = 0")
    case True
    then show ?thesis by (subst high_bit_nat.simps) simp
  next
    case False
    show ?thesis
    proof (cases k)
      case 0
      then show ?thesis using False by (subst high_bit_nat.simps) simp
    next
      case (Suc k')
      have "high_bit_nat n \<le> Suc k' \<longleftrightarrow> high_bit_nat (n div 2) \<le> k'"
        using False by (subst high_bit_nat.simps) simp
      also have "\<dots> \<longleftrightarrow> n div 2 < 2 ^ k'" using 1 [OF False] .
      also have "\<dots> \<longleftrightarrow> n < 2 ^ Suc k'" by (simp add: less_mult_imp_div_less) arith
      finally show ?thesis using Suc by simp
    qed
  qed
qed

lemma top_mask_unat: "unat (drop_bit t (0xFF :: u8)) = 255 div 2 ^ t"
  by (simp only: unat_drop_bit_eq) (simp add: drop_bit_eq_div)

lemma high_bit_masked:
  assumes "t \<le> 8"
  shows "high_bit (x AND drop_bit t 0xFF) \<le> 8 - t"
proof -
  have "x AND drop_bit t 0xFF \<le> drop_bit t 0xFF" by (rule word_and_le1)
  then have "unat (x AND drop_bit t 0xFF) \<le> 255 div 2 ^ t"
    by (simp add: word_le_nat_alt top_mask_unat)
  moreover have "(255::nat) div 2 ^ t < 2 ^ (8 - t)"
  proof -
    have "(2::nat) ^ 8 = 2 ^ (8 - t) * 2 ^ t" using assms by (simp flip: power_add)
    then have "(255::nat) < 2 ^ (8 - t) * 2 ^ t" by simp
    then show ?thesis by (rule less_mult_imp_div_less)
  qed
  ultimately show ?thesis by (simp add: high_bit_def high_bit_nat_le)
qed

lemma one_and_top_mask: "t < 8 \<Longrightarrow> (1 :: u8) AND drop_bit t 0xFF = 1"
proof -
  assume "t < 8"
  then have "t \<in> {0, 1, 2, 3, 4, 5, 6, 7}" by auto
  then show ?thesis by auto
qed

lemma mask_twice:
  "(((a XOR k) AND m) XOR k) AND m = a AND (m :: u8)"
  by (rule bit_eqI) (auto simp: bit_and_iff bit_xor_iff)

subsection \<open>The comparison and the separator scan\<close>

lemma fold_or_zero:
  "fold (\<lambda>(a, b) d. d OR (a XOR b)) ps (acc :: u8) = 0 \<longleftrightarrow> acc = 0 \<and> (\<forall>(a, b) \<in> set ps. a = b)"
proof (induction ps arbitrary: acc)
  case Nil
  then show ?case by simp
next
  case (Cons p ps)
  obtain a b where p: "p = (a, b)" by (cases p)
  have "a XOR b = 0 \<longleftrightarrow> a = b"
    by (auto simp: bit_eq_iff bit_xor_iff)
  then have "acc OR (a XOR b) = 0 \<longleftrightarrow> acc = 0 \<and> a = b"
    by (simp add: or_eq_0_iff)
  then show ?case using Cons [of "acc OR (a XOR b)"] p by auto
qed

lemma constant_time_compare_iff:
  assumes "len \<le> length x" "len \<le> length y"
  shows "constant_time_compare x y len \<longleftrightarrow> take len x = take len y"
proof -
  have "(\<forall>(a, b) \<in> set (zip (take len x) (take len y)). a = b) \<longleftrightarrow> take len x = take len y"
    using assms by (subst list_eq_iff_zip_eq) simp_all
  then show ?thesis by (simp add: constant_time_compare_def fold_or_zero)
qed

lemma separator_scan_found:
  "separator_scan (replicate p 0 @ 0x01 # rest) j = Some (j + p + 1)"
  by (induction p arbitrary: j) simp_all

lemma separator_scan_zeros:
  "\<forall>b \<in> set DB. b = 0 \<Longrightarrow> separator_scan DB j = Some 0"
  by (induction DB arbitrary: j) simp_all

lemma separator_scan_bad:
  assumes "i < length DB" "DB ! i \<noteq> 0" "DB ! i \<noteq> 0x01" "\<forall>k < i. DB ! k \<noteq> 0x01"
  shows "separator_scan DB j = None"
  using assms
proof (induction DB arbitrary: i j)
  case Nil
  then show ?case by simp
next
  case (Cons b bs)
  show ?case
  proof (cases i)
    case 0
    then show ?thesis using Cons.prems by simp
  next
    case (Suc i')
    have b: "b \<noteq> 0x01" using Cons.prems(4) Suc by auto
    have "separator_scan bs (j + 1) = None"
      using Cons.prems Suc by (intro Cons.IH [of i']) auto
    then show ?thesis using b by simp
  qed
qed

subsection \<open>The layout of the encoded block\<close>

text \<open>
  The lemmas of this and the next subsection are about bit counts for which
  \<open>output_bits + 7\<close> does not wrap around, in runs where the block is allocated.
\<close>

lemma buffer_insert_middle:
  "length a = off \<Longrightarrow> length b = length inp \<Longrightarrow>
     buffer_insert (a @ b @ c) off inp = a @ inp @ c"
  by (simp add: buffer_insert_def)

lemma ceil_floor:
  "8 * h + 8 * s + 9 \<le> (b :: nat) \<Longrightarrow> h + s + 2 \<le> (b + 7) div 8"
  by arith

lemma pss_encode_layout_aux:
  fixes hash msg salt output_bits
  defines "ol \<equiv> (unat output_bits + 7) div 8"
  defines "H \<equiv> digest hash (replicate 8 0 @ msg @ salt)"
  defines "n \<equiv> ol - output_length hash - 1"
  defines "t \<equiv> 8 * ol - unat output_bits"
  defines "pre \<equiv> replicate (ol - output_length hash - length salt - 2) 0 @ [0x01] @ salt"
  assumes contract: "hash_contract hash" and fresh: "buffered hash = []"
    and len: "length msg = output_length hash"
    and floor: "8 * output_length hash + 8 * length salt + 9 \<le> unat output_bits"
    and nowrap: "unat output_bits + 7 < 2 ^ 64"
  shows "\<exists>mask. length mask = n \<and> length pre = n \<and>
           (\<forall>out. length out = n \<longrightarrow> mgf1_mask hash H out = Some (map2 (XOR) out mask, hash)) \<and>
           pss_encode hash msg salt output_bits =
             Some (Inr ((map2 (XOR) pre mask)[0 := (pre ! 0 XOR mask ! 0) AND drop_bit t 0xFF]
                          @ H @ [0xBC], hash))"
proof -
  define HS where "HS = output_length hash"
  define S where "S = length salt"
  define p where "p = ol - HS - S - 2"
  define A where "A = replicate p (0::u8)"
  define zs where "zs = replicate S (0::u8)"
  define Z where "Z = replicate (HS + 1) (0::u8)"
  have ol: "unat ((output_bits + 7) div 8) = ol"
    using nowrap by (simp add: ol_def key_bytes_no_wrap)
  have tb: "unat (8 * ((output_bits + 7) div 8) - output_bits) = t"
    using nowrap by (simp add: t_def ol_def top_bits_no_wrap)
  have big: "HS + S + 2 \<le> ol"
    using floor unfolding ol_def HS_def S_def by (rule ceil_floor)
  have olS: "ol = p + Suc (S + (HS + 1))" using big by (simp add: p_def)
  have n: "n = p + 1 + S" using olS by (simp add: n_def HS_def)
  have lH: "length H = HS" using contract by (simp add: H_def hash_contract_def HS_def)
  have lA: "length A = p" by (simp add: A_def)
  have pre: "pre = (A @ [0x01]) @ salt" by (simp add: pre_def A_def p_def HS_def S_def)
  have lpre: "length pre = n" by (simp add: pre lA n S_def)
  have c1: "(length msg \<noteq> HS) = False" using len by (simp add: HS_def)
  have c2: "(unat output_bits < 8 * HS + 8 * S + 9) = False"
    using floor by (simp add: HS_def S_def)
  have c3: "(ol < HS + S + 2) = False" using big by simp
  have fin: "hash_final (hash_update (hash_update (hash_update hash (replicate 8 0)) msg) salt)
               = (H, hash)"
    using fresh by (simp add: hash_final_def hash_update_def H_def)
  from mgf1_mask_fresh [OF contract fresh, of n H]
  obtain mask where mask: "length mask = n"
    "\<And>out. length out = n \<Longrightarrow> mgf1_mask hash H out = Some (map2 (XOR) out mask, hash)"
    by blast
  define X where "X = map2 (XOR) pre mask"
  define X' where "X' = X[0 := X ! 0 AND drop_bit t 0xFF]"
  have lX: "length X = n" using mask(1) lpre by (simp add: X_def)
  have lX': "length X' = n" using lX by (simp add: X'_def)
  have l0: "0 < n" using n by simp
  have idx: "ol - HS - S - 2 = p" "n - S = p + 1" "ol - HS - 1 = n" "ol - 1 - HS = n"
    using olS n by simp_all
  have r0: "replicate ol (0::u8) = A @ 0 # zs @ Z"
    unfolding olS A_def zs_def Z_def by (simp only: replicate_add replicate_Suc)
  have EM1: "(A @ 0 # zs @ Z)[p := 0x01] = A @ 0x01 # zs @ Z"
    using list_update_length [of A 0 "zs @ Z" "0x01"] by (simp only: lA)
  have "buffer_insert ((A @ [0x01]) @ zs @ Z) (p + 1) salt = (A @ [0x01]) @ salt @ Z"
    by (rule buffer_insert_middle) (simp_all add: lA zs_def S_def)
  then have EM2: "buffer_insert (A @ 0x01 # zs @ Z) (p + 1) salt = pre @ Z"
    by (simp add: pre)
  have tk: "take HS H = H" "take n (pre @ Z) = pre" "drop n (pre @ Z) = Z"
    using lH lpre by simp_all
  have m: "mgf1_mask hash H pre = Some (X, hash)"
    using mask(2) [OF lpre] by (simp add: X_def)
  have EM4: "(X @ Z)[0 := (X @ Z) ! 0 AND drop_bit t 0xFF] = X' @ Z"
    using lX l0 by (simp add: X'_def list_update_append nth_append)
  have "buffer_insert (X' @ replicate HS 0 @ [0]) n H = X' @ H @ [0]"
    using lX' lH by (intro buffer_insert_middle) simp_all
  then have EM5: "buffer_insert (X' @ Z) n H = X' @ H @ [0]"
    by (simp add: Z_def replicate_append_same)
  have "ol - 1 = length (X' @ H)" using lX' lH olS n by simp
  then have EM6: "(X' @ H @ [0])[ol - 1 := 0xBC] = X' @ H @ [0xBC]"
    using list_update_length [of "X' @ H" 0 "[]" "0xBC"] by simp
  have X0: "X ! 0 = pre ! 0 XOR mask ! 0"
    using lpre mask(1) l0 by (simp add: X_def)
  have "pss_encode hash msg salt output_bits = Some (Inr (X' @ H @ [0xBC], hash))"
    by (simp only: pss_encode_def Let_def HS_def [symmetric] S_def [symmetric] c1 c2 c3 if_False
        ol tb fin prod.case idx r0 EM1 EM2 tk m option.case EM4 EM5 EM6)
  then show ?thesis using mask lpre X0 unfolding X_def X'_def by auto
qed

subsection \<open>Verification of a block laid out by the encoder\<close>

lemma left_pad_full: "length pss_repr = kb \<Longrightarrow> left_pad kb pss_repr = pss_repr"
  by (simp add: left_pad_def)

lemma unmask_byte0:
  assumes "t < 8" "a = 0 \<or> a = 1"
  shows "((((a XOR k) AND drop_bit t 0xFF) XOR k) AND drop_bit t 0xFF) = (a :: u8)"
  using assms by (auto simp: mask_twice one_and_top_mask)

lemma pss_verify_accepts_aux:
  fixes hash msg salt key_bits mask
  defines "ol \<equiv> (unat key_bits + 7) div 8"
  defines "H \<equiv> digest hash (replicate 8 0 @ msg @ salt)"
  defines "n \<equiv> ol - output_length hash - 1"
  defines "t \<equiv> 8 * ol - unat key_bits"
  defines "pre \<equiv> replicate (ol - output_length hash - length salt - 2) 0 @ [0x01] @ salt"
  assumes contract: "hash_contract hash" and fresh: "buffered hash = []"
    and len: "length msg = output_length hash"
    and floor: "8 * output_length hash + 8 * length salt + 9 \<le> unat key_bits"
    and nowrap: "unat key_bits + 7 < 2 ^ 64"
    and lmask: "length mask = n"
    and mgf: "\<forall>out. length out = n \<longrightarrow> mgf1_mask hash H out = Some (map2 (XOR) out mask, hash)"
  shows "pss_verify hash
           ((map2 (XOR) pre mask)[0 := (pre ! 0 XOR mask ! 0) AND drop_bit t 0xFF] @ H @ [0xBC])
           msg key_bits out_salt_size
         = Some (True, (if out_salt_size \<noteq> None then Some (length salt) else out_salt_size), hash)"
proof -
  define HS where "HS = output_length hash"
  define S where "S = length salt"
  define p where "p = ol - HS - S - 2"
  define A where "A = replicate p (0::u8)"
  define X where "X = map2 (XOR) pre mask"
  define X' where "X' = X[0 := (pre ! 0 XOR mask ! 0) AND drop_bit t 0xFF]"
  define EM where "EM = X' @ H @ [0xBC]"
  have ol: "unat ((key_bits + 7) div 8) = ol"
    using nowrap by (simp add: ol_def key_bytes_no_wrap)
  have tb: "unat (8 * ((key_bits + 7) div 8) - key_bits) = t"
    using nowrap by (simp add: t_def ol_def top_bits_no_wrap)
  have t8: "t < 8" using nowrap tb top_bits_lt8 [of key_bits] by simp
  have big: "HS + S + 2 \<le> ol"
    using floor unfolding ol_def HS_def S_def by (rule ceil_floor)
  have olS: "ol = p + Suc (S + (HS + 1))" using big by (simp add: p_def)
  have n: "n = p + 1 + S" using olS by (simp add: n_def HS_def)
  have l0: "0 < n" using n by simp
  have lH: "length H = HS" using contract by (simp add: H_def hash_contract_def HS_def)
  have lA: "length A = p" by (simp add: A_def)
  have pre: "pre = A @ 0x01 # salt" by (simp add: pre_def A_def p_def HS_def S_def)
  have lpre: "length pre = n" by (simp add: pre lA n S_def)
  have lX: "length X = n" using lmask lpre by (simp add: X_def)
  have lX': "length X' = n" using lX by (simp add: X'_def)
  have lEM: "length EM = ol" using lX' lH olS n by (simp add: EM_def)
  have pre0: "pre ! 0 = 0 \<or> pre ! 0 = 1"
    by (cases p) (simp_all add: pre A_def)
  have X'0: "X' ! 0 = (pre ! 0 XOR mask ! 0) AND drop_bit t 0xFF"
    using lX l0 by (simp add: X'_def)
  have DBpre: "(map2 (XOR) X' mask)[0 := (map2 (XOR) X' mask) ! 0 AND drop_bit t 0xFF] = pre"
  proof (rule nth_equalityI)
    show "length ((map2 (XOR) X' mask)[0 := (map2 (XOR) X' mask) ! 0 AND drop_bit t 0xFF])
            = length pre"
      using lX' lmask lpre by simp
  next
    fix i
    assume "i < length ((map2 (XOR) X' mask)[0 := (map2 (XOR) X' mask) ! 0 AND drop_bit t 0xFF])"
    then have i: "i < n" using lX' lmask by simp
    show "(map2 (XOR) X' mask)[0 := (map2 (XOR) X' mask) ! 0 AND drop_bit t 0xFF] ! i = pre ! i"
    proof (cases "i = 0")
      case True
      then show ?thesis
        using i lX' lmask X'0 unmask_byte0 [OF t8 pre0, of "mask ! 0"] by simp
    next
      case False
      then have "X' ! i = pre ! i XOR mask ! i"
        using i lpre lmask by (simp add: X'_def X_def)
      then show ?thesis using False i lX' lmask by (simp add: xor.assoc)
    qed
  qed
  have c1: "(unat key_bits < 8 * HS + 9) = False" using floor by (simp add: HS_def)
  have c2: "(length msg \<noteq> HS) = False" using len by (simp add: HS_def)
  have c3: "(ol < ol \<or> ol \<le> 1) = False" using big by simp
  have e: "ol - 1 = length (X' @ H)" using lX' lH olS n by simp
  have "((X' @ H) @ [0xBC]) ! length (X' @ H) = 0xBC" by (rule nth_append_length)
  then have "EM ! (ol - 1) = 0xBC" by (simp only: e EM_def append_assoc)
  then have c4: "(EM ! (ol - 1) \<noteq> 0xBC) = False" by simp
  have lp: "left_pad ol EM = EM" using lEM by (rule left_pad_full)
  have EM0: "EM ! 0 = (pre ! 0 XOR mask ! 0) AND drop_bit t 0xFF"
    using lX' l0 X'0 by (simp add: EM_def nth_append)
  have "high_bit (EM ! 0) \<le> 8 - t"
    unfolding EM0 using t8 by (intro high_bit_masked) simp
  then have c5: "(8 - high_bit (EM ! 0) < t) = False" using t8 by simp
  have idx: "ol - HS - 1 = n" using olS n by simp
  have tk: "take HS (drop n EM) = H" "take n EM = X'"
    using lX' lH by (simp_all add: EM_def)
  have m: "mgf1_mask hash H X' = Some (map2 (XOR) X' mask, hash)"
    using mgf lX' by simp
  have u: "unmask_DB hash EM key_bits = Some (pre, hash)"
    by (simp only: unmask_DB_def Let_def HS_def [symmetric] tb lEM idx tk m option.case
        prod.case DBpre)
  have sc: "separator_scan pre 0 = Some (p + 1)"
    using separator_scan_found [of p salt 0] by (simp add: pre A_def)
  have c6: "(p + 1 = 0) = False" by simp
  have ss: "n - (p + 1) = S" using n by simp
  have sl: "take S (drop (p + 1) pre) = salt" by (simp add: pre lA S_def)
  have fin: "hash_final (hash_update (hash_update (hash_update hash (replicate 8 0)) msg) salt)
               = (H, hash)"
    using fresh by (simp add: hash_final_def hash_update_def H_def)
  have cmp: "constant_time_compare H H HS = True"
    using lH by (simp add: constant_time_compare_iff)
  have "pss_verify hash EM msg key_bits out_salt_size
          = Some (True, (if out_salt_size \<noteq> None \<and> True then Some S else out_salt_size), hash)"
    by (simp only: pss_verify_def Let_def HS_def [symmetric] ol tb c1 c2 lEM c3 c4 if_False lp c5
        idx tk u option.case prod.case sc c6 ss sl fin cmp)
  then show ?thesis by (simp add: EM_def X'_def X_def S_def)
qed

lemma pss_roundtrip_aux:
  assumes contract: "hash_contract hash" and fresh: "buffered hash = []"
    and len: "length msg = output_length hash"
    and floor: "8 * output_length hash + 8 * length salt + 9 \<le> unat output_bits"
    and nowrap: "unat output_bits + 7 < 2 ^ 64"
  shows "\<exists>EM. pss_encode hash msg salt output_bits = Some (Inr (EM, hash)) \<and>
           pss_verify hash EM msg output_bits out_salt_size =
             Some (True, (if out_salt_size \<noteq> None then Some (length salt) else out_salt_size), hash)"
proof -
  from pss_encode_layout_aux [OF assms]
  obtain mask where m: "length mask = (unat output_bits + 7) div 8 - output_length hash - 1"
    "\<forall>out. length out = (unat output_bits + 7) div 8 - output_length hash - 1 \<longrightarrow>
       mgf1_mask hash (digest hash (replicate 8 0 @ msg @ salt)) out
         = Some (map2 (XOR) out mask, hash)"
    and e: "pss_encode hash msg salt output_bits =
      Some (Inr ((map2 (XOR)
           (replicate ((unat output_bits + 7) div 8 - output_length hash - length salt - 2) 0
              @ [0x01] @ salt) mask)
         [0 := ((replicate ((unat output_bits + 7) div 8 - output_length hash - length salt - 2) 0
              @ [0x01] @ salt) ! 0 XOR mask ! 0)
               AND drop_bit (8 * ((unat output_bits + 7) div 8) - unat output_bits) 0xFF]
          @ digest hash (replicate 8 0 @ msg @ salt) @ [0xBC], hash))"
    by (elim exE conjE)
  show ?thesis
    unfolding e using pss_verify_accepts_aux [OF assms m, of out_salt_size] by simp
qed

subsection \<open>The example hash and the wrapped bit count\<close>

lemma sum_hash_contract: "hash_contract sum_hash"
  by (simp add: hash_contract_def sum_hash_def)

lemma sum_hash_fresh: "buffered sum_hash = []"
  by (simp add: sum_hash_def)

lemma pss_encode_wrap:
  assumes "length msg = output_length hash"
    and "8 * output_length hash + 8 * length salt + 9 \<le> unat output_bits"
    and "\<not> unat output_bits + 7 < 2 ^ 64"
  shows "pss_encode hash msg salt output_bits = Some (Inl Out_Of_Range)"
  using assms(1,2) key_bytes_wrap [OF assms(3)]
  by (simp add: pss_encode_def Let_def split: prod.split)

lemma sum_hash_block:
  "pss_encode sum_hash [5] [9] 33 = Some (Inr ([0, 28, 23, 21, 0xBC], sum_hash))"
  "pss_verify sum_hash [0, 28, 23, 21, 0xBC] [5] 33 (Some 0) = Some (True, Some 1, sum_hash)"
proof -
  have e: "case pss_encode sum_hash [5] [9] 33 of
             Some (Inr (EM, h)) \<Rightarrow> EM = [0, 28, 23, 21, 0xBC] | _ \<Rightarrow> False"
    by code_simp
  from pss_roundtrip_aux [OF sum_hash_contract sum_hash_fresh, of "[5]" "[9]" 33 "Some 0"]
  obtain EM where r: "pss_encode sum_hash [5] [9] 33 = Some (Inr (EM, sum_hash))"
    "pss_verify sum_hash EM [5] 33 (Some 0) = Some (True, Some 1, sum_hash)"
    by (auto simp: sum_hash_def)
  have "EM = [0, 28, 23, 21, 0xBC]" using e r(1) by simp
  then show "pss_encode sum_hash [5] [9] 33 = Some (Inr ([0, 28, 23, 21, 0xBC], sum_hash))"
    "pss_verify sum_hash [0, 28, 23, 21, 0xBC] [5] 33 (Some 0) = Some (True, Some 1, sum_hash)"
    using r by simp_all
qed

subsection \<open>Early rejection and left padding\<close>

lemma pss_verify_bad_length:
  "length pss_repr \<le> 1 \<or> unat ((key_bits + 7) div 8) < length pss_repr \<Longrightarrow>
     pss_verify hash pss_repr message_hash key_bits out_salt_size
       = Some (False, out_salt_size, hash)"
  by (auto simp: pss_verify_def Let_def)

lemma buffer_insert_tail:
  "length inp \<le> n \<Longrightarrow>
     buffer_insert (replicate n 0) (n - length inp) inp = replicate (n - length inp) 0 @ inp"
  by (simp add: buffer_insert_def min_def)

lemma left_pad_eq:
  "length pss_repr \<le> KEY_BYTES \<Longrightarrow>
     left_pad KEY_BYTES pss_repr = replicate (KEY_BYTES - length pss_repr) 0 @ pss_repr"
  by (simp add: left_pad_def buffer_insert_tail)

subsection \<open>After the structural checks\<close>

lemma checks_sizes:
  assumes "structural_checks hash pss_repr message_hash key_bits"
  shows "output_length hash + 2 \<le> unat ((key_bits + 7) div 8)"
    and "length pss_repr \<le> unat ((key_bits + 7) div 8)"
proof -
  have a: "8 * output_length hash + 9 \<le> unat key_bits"
    and b: "1 < length pss_repr" "length pss_repr \<le> unat ((key_bits + 7) div 8)"
    using assms by (simp_all add: structural_checks_def Let_def)
  have "unat key_bits + 7 < 2 ^ 64"
    using b key_bytes_wrap [of key_bits] by (cases "unat key_bits + 7 < 2 ^ 64") simp_all
  then have "unat ((key_bits + 7) div 8) = (unat key_bits + 7) div 8"
    by (rule key_bytes_no_wrap)
  then show "output_length hash + 2 \<le> unat ((key_bits + 7) div 8)" using a by simp
  show "length pss_repr \<le> unat ((key_bits + 7) div 8)" by (rule b(2))
qed

lemma pss_verify_after_checks:
  assumes "structural_checks hash pss_repr message_hash key_bits"
  shows "pss_verify hash pss_repr message_hash key_bits out_salt_size =
    (case unmask_DB hash (left_pad (unat ((key_bits + 7) div 8)) pss_repr) key_bits of
       None \<Rightarrow> None
     | Some (DB, hash1) \<Rightarrow>
         (case separator_scan DB 0 of
            None \<Rightarrow> Some (False, out_salt_size, hash1)
          | Some salt_offset \<Rightarrow>
              if salt_offset = 0 then Some (False, out_salt_size, hash1)
              else pss_verify hash pss_repr message_hash key_bits out_salt_size))"
  using assms
  by (simp add: pss_verify_def structural_checks_def Let_def split: option.split prod.split)

lemma pss_verify_failed_checks:
  "\<not> structural_checks hash pss_repr message_hash key_bits \<Longrightarrow>
     pss_verify hash pss_repr message_hash key_bits out_salt_size
       = Some (False, out_salt_size, hash)"
  by (auto simp: pss_verify_def structural_checks_def Let_def)

lemma pss_verify_cell:
  assumes "pss_verify hash pss_repr message_hash key_bits out_salt_size = Some (False, cell, hash')"
  shows "cell = out_salt_size"
  using assms
  by (auto simp: pss_verify_def Let_def split: if_splits option.splits prod.splits)

lemma unmask_DB_returns:
  assumes "hash_contract hash" and "structural_checks hash pss_repr message_hash key_bits"
  shows "\<exists>DB. unmask_DB hash (left_pad (unat ((key_bits + 7) div 8)) pss_repr) key_bits
                = Some (DB, hash\<lparr>buffered := []\<rparr>)
              \<and> length DB = unat ((key_bits + 7) div 8) - output_length hash - 1"
proof -
  define KEY_BYTES where "KEY_BYTES = unat ((key_bits + 7) div 8)"
  define coded where "coded = left_pad KEY_BYTES pss_repr"
  define n where "n = KEY_BYTES - output_length hash - 1"
  have s: "output_length hash + 2 \<le> KEY_BYTES" "length pss_repr \<le> KEY_BYTES"
    using checks_sizes [OF assms(2)] by (simp_all add: KEY_BYTES_def)
  have lc: "length coded = KEY_BYTES" using s(2) by (simp add: coded_def left_pad_eq)
  have "take n coded \<noteq> []" using s(1) lc by (auto simp: n_def)
  from mgf1_mask_returns [OF assms(1) this,
      of "take (output_length hash) (drop n coded)"]
  obtain r where r: "mgf1_mask hash (take (output_length hash) (drop n coded)) (take n coded)
                       = Some (r, hash\<lparr>buffered := []\<rparr>)"
      "length r = length (take n coded)"
    by blast
  have lr: "length r = n" using r(2) lc s(1) by (simp add: n_def)
  have idx: "length coded - output_length hash - 1 = n" using lc by (simp add: n_def)
  have "unmask_DB hash coded key_bits
          = Some (r[0 := r ! 0 AND drop_bit (unat (8 * ((key_bits + 7) div 8) - key_bits)) 0xFF],
                  hash\<lparr>buffered := []\<rparr>)"
    by (simp only: unmask_DB_def Let_def idx r(1) option.case prod.case)
  then show ?thesis using lr by (simp add: coded_def KEY_BYTES_def n_def)
qed

lemma sum_hash_reset: "sum_hash\<lparr>buffered := []\<rparr> = sum_hash"
  by (simp add: sum_hash_def)

subsection \<open>The logged definitions\<close>

text \<open>
  The logged definitions return what the plain ones return, and the log never holds a
  comparison after the salt length check.
\<close>

lemma pss_verify_log_result:
  "map_option fst (pss_verify_log hash pss_repr message_hash key_bits out_salt_size)
     = pss_verify hash pss_repr message_hash key_bits out_salt_size"
  by (simp add: pss_verify_log_def pss_verify_def Let_def split: option.split prod.split)

lemma PSSR_verify_log_result:
  "map_option fst (PSSR_verify_log this coded raw key_bits) = PSSR_verify this coded raw key_bits"
proof (cases "pss_verify_log (m_hash this) coded raw key_bits (Some 0)")
  case None
  then have "pss_verify (m_hash this) coded raw key_bits (Some 0) = None"
    using pss_verify_log_result [of "m_hash this" coded raw key_bits "Some 0"] by simp
  then show ?thesis using None by (simp add: PSSR_verify_log_def PSSR_verify_def)
next
  case (Some r)
  obtain ok cell hash' log where r: "r = ((ok, cell, hash'), log)"
    by (metis prod.exhaust)
  have "pss_verify (m_hash this) coded raw key_bits (Some 0) = Some (ok, cell, hash')"
    using pss_verify_log_result [of "m_hash this" coded raw key_bits "Some 0"] Some r by simp
  then show ?thesis
    using Some r by (simp add: PSSR_verify_log_def PSSR_verify_def Let_def)
qed

lemma pss_verify_log_true:
  assumes "pss_verify_log hash pss_repr message_hash key_bits out_salt_size
             = Some ((True, cell, hash'), log)"
  shows "log = [Constant_Time_Compare True]"
  using assms
  by (auto simp: pss_verify_log_def Let_def split: if_splits option.splits prod.splits)

lemma pss_verify_log_of_true:
  assumes "pss_verify hash pss_repr message_hash key_bits out_salt_size
             = Some (True, cell, hash')"
  shows "pss_verify_log hash pss_repr message_hash key_bits out_salt_size
             = Some ((True, cell, hash'), [Constant_Time_Compare True])"
proof -
  from assms pss_verify_log_result [of hash pss_repr message_hash key_bits out_salt_size]
  obtain log where "pss_verify_log hash pss_repr message_hash key_bits out_salt_size
             = Some ((True, cell, hash'), log)"
    by (cases "pss_verify_log hash pss_repr message_hash key_bits out_salt_size") auto
  then show ?thesis using pss_verify_log_true by simp
qed

lemma PSSR_verify_log_order:
  assumes "PSSR_verify_log this coded raw key_bits = Some (res, log)"
  shows "\<exists>b. log = [Salt_Length_Check b]
             \<or> (\<exists>ok. log = [Constant_Time_Compare ok, Salt_Length_Check b])"
  using assms
  by (auto simp: PSSR_verify_log_def pss_verify_log_def Let_def
      split: if_splits option.splits prod.splits)

section \<open>The claims\<close>

text \<open>
  Where a statement gives the result of \<^verbatim>\<open>pss_verify\<close> as
  \<open>Some (False, out_salt_size, hash)\<close>, the function returns \<open>false\<close>, it does not
  throw, the cell behind \<^verbatim>\<open>out_salt_size\<close> is not written, and the hash object is
  the one that was passed in, with the same buffered input: no \<^verbatim>\<open>update\<close> and no
  \<^verbatim>\<open>final\<close> was performed on it.
\<close>

text \<open>
  C1. Round trip: for every digest of length \<open>HASH_SIZE\<close>, every salt and every
  \<open>output_bits\<close> with \<open>8 * HASH_SIZE + 8 * SALT_SIZE + 9 \<le> output_bits\<close>, verifying the
  block produced by \<^verbatim>\<open>pss_encode\<close> against the same digest returns true when
  \<open>key_bits\<close> has the same byte count and top bits. The code does not do this for every
  such \<open>output_bits\<close>. At \<open>output_bits = key_bits = 2 ^ 64 - 1\<close>, with a hash that meets
  its contract, a digest of the right length and a one-byte salt, the floor check of
  line 31 passes, \<open>(output_bits + 7) / 8\<close> wraps around to 0 at line 34, and line 44
  writes outside the empty vector: signing followed by verification ends in that write,
  not in true. (\<open>pss_encode_wrap\<close> shows the same for every hash, digest and salt and
  every \<open>output_bits\<close> within 7 of the largest \<^verbatim>\<open>size_t\<close>; below that,
  \<open>pss_roundtrip_aux\<close> gives the round trip.)
\<close>

theorem pss_roundtrip_size_max:
  "hash_contract sum_hash \<and> buffered sum_hash = []
   \<and> length [5 :: u8] = output_length sum_hash
   \<and> 8 * output_length sum_hash + 8 * length [9 :: u8] + 9 \<le> unat (0xFFFFFFFFFFFFFFFF :: size_t)
   \<and> encode_then_verify sum_hash [5] [9] 0xFFFFFFFFFFFFFFFF 0xFFFFFFFFFFFFFFFF
        = Some (Inl Out_Of_Range)"
proof -
  have "pss_encode sum_hash [5] [9] 0xFFFFFFFFFFFFFFFF = Some (Inl Out_Of_Range)"
    by (rule pss_encode_wrap) (simp_all add: sum_hash_def)
  then show ?thesis
    by (simp add: encode_then_verify_def sum_hash_contract sum_hash_fresh) (simp add: sum_hash_def)
qed

text \<open>
  C2. Layout of the encoded block: for every digest of length \<open>HASH_SIZE\<close>, every salt
  and every \<open>output_bits\<close> that meets the floor, \<^verbatim>\<open>pss_encode\<close> returns a block of
  \<open>ceil (output_bits / 8)\<close> bytes laid out as zero padding, \<open>0x01\<close>, salt (these masked,
  the top bits of the first byte cleared), \<open>H\<close>, \<open>0xBC\<close>. The code does not do this for
  every such \<open>output_bits\<close>. At \<open>output_bits = 2 ^ 64 - 2\<close>, with a hash that meets its
  contract, a digest of the right length and a two-byte salt, the floor check passes, the
  computed \<open>output_length\<close> is 0 instead of \<open>ceil (output_bits / 8)\<close>, and the write of
  \<open>0x01\<close> at line 44 falls outside the vector: no block is returned.
  (\<open>pss_encode_layout_aux\<close> gives the layout where \<open>output_bits + 7\<close> does not wrap.)
\<close>

theorem pss_encode_layout_wrap:
  "hash_contract sum_hash \<and> buffered sum_hash = []
   \<and> length [5 :: u8] = output_length sum_hash
   \<and> 8 * output_length sum_hash + 8 * length [9, 9 :: u8] + 9 \<le> unat (0xFFFFFFFFFFFFFFFE :: size_t)
   \<and> pss_encode sum_hash [5] [9, 9] 0xFFFFFFFFFFFFFFFE = Some (Inl Out_Of_Range)"
proof -
  have "pss_encode sum_hash [5] [9, 9] 0xFFFFFFFFFFFFFFFE = Some (Inl Out_Of_Range)"
    by (rule pss_encode_wrap) (simp_all add: sum_hash_def)
  then show ?thesis
    by (simp add: sum_hash_contract sum_hash_fresh) (simp add: sum_hash_def)
qed

text \<open>
  C3. Separator scan: for every coded block that passes the structural checks, the
  unmasked \<open>DB\<close> (after the MGF1 XOR and the clearing of the top bits) exists, and if it
  consists of zero bytes only, so that no \<open>0x01\<close> is found, \<^verbatim>\<open>pss_verify\<close> returns
  false; and if a byte that is neither \<open>0x00\<close> nor \<open>0x01\<close> occurs in \<open>DB\<close> before the
  first \<open>0x01\<close>, \<^verbatim>\<open>pss_verify\<close> returns false. In both cases the hash object is left
  reset by the mask generation.
\<close>

theorem separator_scan_rejects:
  assumes "hash_contract hash" and "structural_checks hash pss_repr message_hash key_bits"
  shows "\<exists>DB. unmask_DB hash (left_pad (unat ((key_bits + 7) div 8)) pss_repr) key_bits
                = Some (DB, hash\<lparr>buffered := []\<rparr>)
     \<and> ((\<forall>b \<in> set DB. b = 0) \<longrightarrow>
          pss_verify hash pss_repr message_hash key_bits out_salt_size
            = Some (False, out_salt_size, hash\<lparr>buffered := []\<rparr>))
     \<and> ((\<exists>i < length DB. DB ! i \<noteq> 0 \<and> DB ! i \<noteq> 0x01 \<and> (\<forall>j < i. DB ! j \<noteq> 0x01)) \<longrightarrow>
          pss_verify hash pss_repr message_hash key_bits out_salt_size
            = Some (False, out_salt_size, hash\<lparr>buffered := []\<rparr>))"
proof -
  from unmask_DB_returns [OF assms]
  obtain DB where u: "unmask_DB hash (left_pad (unat ((key_bits + 7) div 8)) pss_repr) key_bits
                        = Some (DB, hash\<lparr>buffered := []\<rparr>)"
    by blast
  have z: "pss_verify hash pss_repr message_hash key_bits out_salt_size
             = Some (False, out_salt_size, hash\<lparr>buffered := []\<rparr>)"
    if "\<forall>b \<in> set DB. b = 0"
    using separator_scan_zeros [OF that, of 0]
    by (subst pss_verify_after_checks [OF assms(2)]) (simp add: u)
  have b: "pss_verify hash pss_repr message_hash key_bits out_salt_size
             = Some (False, out_salt_size, hash\<lparr>buffered := []\<rparr>)"
    if "\<exists>i < length DB. DB ! i \<noteq> 0 \<and> DB ! i \<noteq> 0x01 \<and> (\<forall>j < i. DB ! j \<noteq> 0x01)"
  proof -
    from that obtain i where "i < length DB" "DB ! i \<noteq> 0" "DB ! i \<noteq> 0x01"
      "\<forall>j < i. DB ! j \<noteq> 0x01" by blast
    then have "separator_scan DB 0 = None" by (rule separator_scan_bad)
    then show ?thesis
      by (subst pss_verify_after_checks [OF assms(2)]) (simp add: u)
  qed
  show ?thesis using u z b by blast
qed

theorem separator_scan_rejects_witness:
  "structural_checks sum_hash [1, 8, 9, 0, 0xBC] [5] 33
   \<and> pss_verify sum_hash [1, 8, 9, 0, 0xBC] [5] 33 (Some 0) = Some (False, Some 0, sum_hash)
   \<and> structural_checks sum_hash [1, 10, 9, 0, 0xBC] [5] 33
   \<and> pss_verify sum_hash [1, 10, 9, 0, 0xBC] [5] 33 (Some 0) = Some (False, Some 0, sum_hash)"
proof -
  have s1: "structural_checks sum_hash [1, 8, 9, 0, 0xBC] [5] 33" by code_simp
  have s2: "structural_checks sum_hash [1, 10, 9, 0, 0xBC] [5] 33" by code_simp
  have d1: "case unmask_DB sum_hash (left_pad (unat ((33 + 7 :: size_t) div 8)) [1, 8, 9, 0, 0xBC]) 33
              of None \<Rightarrow> False | Some (DB, h) \<Rightarrow> DB = [0, 0, 0]"
    by code_simp
  have d2: "case unmask_DB sum_hash (left_pad (unat ((33 + 7 :: size_t) div 8)) [1, 10, 9, 0, 0xBC]) 33
              of None \<Rightarrow> False | Some (DB, h) \<Rightarrow> DB = [0, 2, 0]"
    by code_simp
  from separator_scan_rejects [OF sum_hash_contract s1, of "Some 0"] d1
  have v1: "pss_verify sum_hash [1, 8, 9, 0, 0xBC] [5] 33 (Some 0) = Some (False, Some 0, sum_hash)"
    by (auto simp: sum_hash_reset)
  from separator_scan_rejects [OF sum_hash_contract s2, of "Some 0"] d2
  have v2: "pss_verify sum_hash [1, 10, 9, 0, 0xBC] [5] 33 (Some 0) = Some (False, Some 0, sum_hash)"
    by (auto simp: sum_hash_reset nth_Cons' less_Suc_eq split: if_splits)
  show ?thesis using s1 s2 v1 v2 by blast
qed

text \<open>
  C4. Trailer check: for every coded block, digest and \<open>key_bits\<close>, if the last byte of
  the coded block is not \<open>0xBC\<close> then \<^verbatim>\<open>pss_verify\<close> returns false, whatever the
  other bytes are.
\<close>

theorem trailer_check:
  assumes "pss_repr \<noteq> []" and "last pss_repr \<noteq> 0xBC"
  shows "pss_verify hash pss_repr message_hash key_bits out_salt_size
           = Some (False, out_salt_size, hash)"
proof -
  have "pss_repr ! (length pss_repr - 1) \<noteq> 0xBC"
    using assms by (simp add: last_conv_nth)
  then show ?thesis by (simp add: pss_verify_def Let_def)
qed

theorem trailer_check_witness:
  "pss_verify sum_hash [0, 28, 23, 21, 0xBD] [5] 33 (Some 0) = Some (False, Some 0, sum_hash)"
  by (rule trailer_check) simp_all

text \<open>
  C5. Length floors: for a digest of length \<open>HASH_SIZE\<close>, \<^verbatim>\<open>pss_encode\<close> fails with
  \<open>Encoding_Error\<close> exactly when \<open>output_bits < 8 * HASH_SIZE + 8 * SALT_SIZE + 9\<close>;
  and \<^verbatim>\<open>pss_verify\<close> returns false, without an error, whenever
  \<open>key_bits < 8 * HASH_SIZE + 9\<close>.
\<close>

theorem length_floor:
  "(length msg = output_length hash \<longrightarrow>
      (pss_encode hash msg salt output_bits = Some (Inl Encoding_Error))
        = (unat output_bits < 8 * output_length hash + 8 * length salt + 9))
   \<and> (unat key_bits < 8 * output_length hash + 9 \<longrightarrow>
        pss_verify hash pss_repr message_hash key_bits out_salt_size
          = Some (False, out_salt_size, hash))"
  by (simp add: pss_encode_def pss_verify_def Let_def split: prod.split option.split)

theorem length_floor_witness:
  "length [5 :: u8] = output_length sum_hash
   \<and> pss_encode sum_hash [5] [9] 24 = Some (Inl Encoding_Error)
   \<and> pss_encode sum_hash [5] [9] 25 \<noteq> Some (Inl Encoding_Error)
   \<and> pss_verify sum_hash [0, 28, 23, 21, 0xBC] [5] 16 (Some 0) = Some (False, Some 0, sum_hash)"
  using length_floor [of "[5]" sum_hash "[9]" 24 16 "[0, 28, 23, 21, 0xBC]" "[5]" "Some 0"]
    length_floor [of "[5]" sum_hash "[9]" 25 16 "[0, 28, 23, 21, 0xBC]" "[5]" "Some 0"]
  by (simp add: sum_hash_def)

text \<open>
  C6. Digest length: for every input whose length differs from \<open>HASH_SIZE\<close>,
  \<^verbatim>\<open>pss_encode\<close> fails with \<open>Encoding_Error\<close>; for every digest whose length differs
  from \<open>HASH_SIZE\<close>, \<^verbatim>\<open>pss_verify\<close> returns false.
\<close>

theorem digest_length_mismatch:
  "(length msg \<noteq> output_length hash \<longrightarrow>
      pss_encode hash msg salt output_bits = Some (Inl Encoding_Error))
   \<and> (length message_hash \<noteq> output_length hash \<longrightarrow>
        pss_verify hash pss_repr message_hash key_bits out_salt_size
          = Some (False, out_salt_size, hash))"
  by (simp add: pss_encode_def pss_verify_def Let_def)

theorem digest_length_mismatch_witness:
  "length [5, 6 :: u8] \<noteq> output_length sum_hash
   \<and> pss_encode sum_hash [5, 6] [9] 33 = Some (Inl Encoding_Error)
   \<and> pss_verify sum_hash [0, 28, 23, 21, 0xBC] [5, 6] 33 (Some 0) = Some (False, Some 0, sum_hash)"
  using digest_length_mismatch [of "[5, 6]" sum_hash "[9]" 33 "[5, 6]" "[0, 28, 23, 21, 0xBC]" 33 "Some 0"]
  by (simp add: sum_hash_def)

text \<open>
  C7. Short-input rejection: \<^verbatim>\<open>pss_verify\<close> on a coded block of length zero or one,
  or of more than \<open>ceil (key_bits / 8)\<close> bytes, returns false and leaves the hash object
  untouched, whatever input it has buffered: the hash function is not invoked.
\<close>

theorem short_input_rejection:
  assumes "length pss_repr \<le> 1 \<or> (unat key_bits + 7) div 8 < length pss_repr"
  shows "pss_verify hash pss_repr message_hash key_bits out_salt_size
           = Some (False, out_salt_size, hash)"
proof -
  have "length pss_repr \<le> 1 \<or> unat ((key_bits + 7) div 8) < length pss_repr"
    using assms key_bytes_le [of key_bits] by linarith
  then show ?thesis by (auto simp: pss_verify_def Let_def)
qed

theorem short_input_rejection_witness:
  "pss_verify (sum_hash\<lparr>buffered := [1, 2]\<rparr>) [0xBC] [5] 33 (Some 0)
     = Some (False, Some 0, sum_hash\<lparr>buffered := [1, 2]\<rparr>)
   \<and> pss_verify (sum_hash\<lparr>buffered := [1, 2]\<rparr>) [0, 0, 28, 23, 21, 0xBC] [5] 33 (Some 0)
     = Some (False, Some 0, sum_hash\<lparr>buffered := [1, 2]\<rparr>)"
  using short_input_rejection [of "[0xBC]" 33 "sum_hash\<lparr>buffered := [1, 2]\<rparr>" "[5]" "Some 0"]
    short_input_rejection [of "[0, 0, 28, 23, 21, 0xBC]" 33 "sum_hash\<lparr>buffered := [1, 2]\<rparr>" "[5]" "Some 0"]
  by simp

text \<open>
  C8. Salt-size policy. For every engine with \<open>m_required_salt_len\<close> set, as the
  constructor with a salt size sets it: if \<^verbatim>\<open>pss_verify\<close> returns true, that is, its
  hash comparison has succeeded, and the recovered salt length it has stored differs from
  \<open>m_salt_size\<close>, then \<^verbatim>\<open>verify\<close> returns false. The salt length check is applied
  after the constant-time comparison: in the list of decisions evaluated, the comparison
  (with result true) comes first and the salt length check second.
\<close>

theorem salt_size_policy:
  assumes "m_required_salt_len this"
    and "pss_verify (m_hash this) coded raw key_bits (Some 0)
           = Some (True, Some salt_size, hash')"
    and "salt_size \<noteq> m_salt_size this"
  shows "PSSR_verify this coded raw key_bits = Some (False, this\<lparr>m_hash := hash'\<rparr>)
     \<and> PSSR_verify_log this coded raw key_bits
         = Some ((False, this\<lparr>m_hash := hash'\<rparr>),
                 [Constant_Time_Compare True, Salt_Length_Check True])"
  using assms pss_verify_log_of_true [OF assms(2)]
  by (simp add: PSSR_verify_def PSSR_verify_log_def)

theorem salt_size_policy_witness:
  "m_required_salt_len (PSSR_new_salt sum_hash 2)
   \<and> pss_verify sum_hash [0, 28, 23, 21, 0xBC] [5] 33 (Some 0) = Some (True, Some 1, sum_hash)
   \<and> PSSR_verify (PSSR_new_salt sum_hash 2) [0, 28, 23, 21, 0xBC] [5] 33
       = Some (False, PSSR_new_salt sum_hash 2)
   \<and> PSSR_verify_log (PSSR_new_salt sum_hash 2) [0, 28, 23, 21, 0xBC] [5] 33
       = Some ((False, PSSR_new_salt sum_hash 2),
               [Constant_Time_Compare True, Salt_Length_Check True])"
  using salt_size_policy [of "PSSR_new_salt sum_hash 2" "[0, 28, 23, 21, 0xBC]" "[5]" 33 1 sum_hash]
    sum_hash_block(2)
  by (simp add: PSSR_new_salt_def)

text \<open>
  C9. Left padding: for every coded block of more than one and at most
  \<open>ceil (key_bits / 8)\<close> bytes, every digest and every \<open>key_bits\<close>,
  \<^verbatim>\<open>pss_verify\<close> gives the same result on the block and on the block extended on the
  left with zero bytes to exactly \<open>ceil (key_bits / 8)\<close> bytes.
\<close>

theorem left_pad_invariance:
  assumes "1 < length coded" and "length coded \<le> (unat key_bits + 7) div 8"
  shows "pss_verify hash (replicate ((unat key_bits + 7) div 8 - length coded) 0 @ coded)
           message_hash key_bits out_salt_size
         = pss_verify hash coded message_hash key_bits out_salt_size"
proof (cases "unat key_bits + 7 < 2 ^ 64")
  case True
  define KEY_BYTES where "KEY_BYTES = unat ((key_bits + 7) div 8)"
  define padded where "padded = replicate (KEY_BYTES - length coded) 0 @ coded"
  have kb: "(unat key_bits + 7) div 8 = KEY_BYTES"
    using True by (simp add: KEY_BYTES_def key_bytes_no_wrap)
  have lc: "length coded \<le> KEY_BYTES" using assms(2) kb by simp
  have lp: "length padded = KEY_BYTES" using lc by (simp add: padded_def)
  have ne: "coded \<noteq> []" "padded \<noteq> []" using assms(1) by (auto simp: padded_def)
  have "last padded = last coded" using ne by (simp add: padded_def)
  then have last: "padded ! (KEY_BYTES - Suc 0) = coded ! (length coded - Suc 0)"
    using last_conv_nth [OF ne(1)] last_conv_nth [OF ne(2)] lp by simp
  have pad: "left_pad KEY_BYTES padded = padded" "left_pad KEY_BYTES coded = padded"
    using lc lp by (simp_all add: left_pad_eq) (simp add: padded_def)
  have "pss_verify hash padded message_hash key_bits out_salt_size
          = pss_verify hash coded message_hash key_bits out_salt_size"
    using assms(1) lc
    by (simp add: pss_verify_def Let_def KEY_BYTES_def [symmetric] lp last pad)
  then show ?thesis by (simp add: padded_def kb)
next
  case False
  have z: "unat ((key_bits + 7) div 8) = 0" using False by (rule key_bytes_wrap)
  have "pss_verify hash coded message_hash key_bits out_salt_size
          = Some (False, out_salt_size, hash)"
    using z assms(1) by (intro pss_verify_bad_length) auto
  moreover have "pss_verify hash (replicate ((unat key_bits + 7) div 8 - length coded) 0 @ coded)
      message_hash key_bits out_salt_size = Some (False, out_salt_size, hash)"
    using z assms(1) by (intro pss_verify_bad_length) auto
  ultimately show ?thesis by simp
qed

theorem left_pad_invariance_witness:
  "pss_verify sum_hash [28, 23, 21, 0xBC] [5] 33 (Some 0) = Some (True, Some 1, sum_hash)
   \<and> pss_verify sum_hash [0, 28, 23, 21, 0xBC] [5] 33 (Some 0) = Some (True, Some 1, sum_hash)"
  using left_pad_invariance [of "[28, 23, 21, 0xBC]" 33 sum_hash "[5]" "Some 0"]
    sum_hash_block(2)
  by simp

text \<open>
  C10. After every call of \<^verbatim>\<open>PSSR_Raw::raw_data\<close> the message buffer \<open>m_msg\<close> is
  empty; in particular when the call throws \<open>Encoding_Error\<close> because the buffered length
  is not the hash output length, the accumulated bytes are gone.
\<close>

theorem raw_data_clears_buffer:
  "m_msg (snd (PSSR_Raw_raw_data this)) = []
   \<and> (length (m_msg this) \<noteq> output_length (m_hash this) \<longrightarrow>
        PSSR_Raw_raw_data this = (Inl Encoding_Error, this\<lparr>m_msg := []\<rparr>))"
  by (simp add: PSSR_Raw_raw_data_def Let_def)

theorem raw_data_clears_buffer_witness:
  "PSSR_Raw_raw_data
     \<lparr>m_hash = sum_hash, m_salt_size = 1, m_required_salt_len = False, m_msg = [1, 2, 3]\<rparr>
   = (Inl Encoding_Error,
      \<lparr>m_hash = sum_hash, m_salt_size = 1, m_required_salt_len = False, m_msg = []\<rparr>)"
  using raw_data_clears_buffer
    [of "\<lparr>m_hash = sum_hash, m_salt_size = 1, m_required_salt_len = False, m_msg = [1, 2, 3]\<rparr>"]
  by (simp add: sum_hash_def)

end
